theory Spec2Isabelle
  imports Complex_Main
begin

section \<open>The grid editor of MinecraftEditor.tsx\<close>

text \<open>
  The component keeps its state in React hooks: the grid of cells, the selected block,
  the tool, the zoom factor and the pan offset. The model passes that state explicitly.
  A grid coordinate (always the result of \<^verbatim>\<open>Math.floor\<close>, or of adding or subtracting
  one) is an \<open>int\<close>. A screen coordinate, pan offset or zoom factor is a binary64 number:
  a \<open>real\<close>, with every arithmetic operation on it rounded to the nearest double.
\<close>

subsection \<open>Constants and data\<close>

definition CANVAS_WIDTH :: int where
  "CANVAS_WIDTH = 64"

definition CANVAS_HEIGHT :: int where
  "CANVAS_HEIGHT = 48"

definition CELL_SIZE :: real where
  "CELL_SIZE = 16"

datatype Tool = Brush | Eraser | Fill

record Cell =
  blockId :: string

text \<open>
  A JavaScript array may have holes and reads \<^verbatim>\<open>undefined\<close> outside its indices;
  a slot of a row is therefore a \<open>Cell option\<close>, with \<open>None\<close> for \<^verbatim>\<open>undefined\<close>.
  The outer array only ever holds rows.
\<close>

type_synonym Row = "Cell option list"

type_synonym Grid = "Row list"

text \<open>The only exception the modelled code can raise: a property access on \<^verbatim>\<open>undefined\<close>.\<close>

datatype error = TypeError

text \<open>
  The hooks of the component. Of \<^verbatim>\<open>selectedBlock\<close> the modelled code reads the
  \<^verbatim>\<open>id\<close> only, so the field holds that identifier. \<open>canvasRef\<close> is
  \<^verbatim>\<open>canvasRef.current\<close>: \<open>None\<close> for \<^verbatim>\<open>null\<close>, otherwise the \<^verbatim>\<open>left\<close>
  and \<^verbatim>\<open>top\<close> of the canvas's bounding rectangle.
\<close>

record EditorState =
  grid :: Grid
  selectedBlock :: string
  tool :: Tool
  zoom :: real
  panOffset :: "real \<times> real"
  canvasRef :: "(real \<times> real) option"

subsection \<open>JavaScript numbers\<close>

text \<open>The nearest integer, a tie going to the even one.\<close>

definition round_even :: "real \<Rightarrow> int" where
  "round_even y =
     (let f = \<lfloor>y\<rfloor>; d = y - of_int f
      in if d < 1 / 2 then f else if d > 1 / 2 then f + 1 else if even f then f else f + 1)"

text \<open>
  Rounding to binary64, to nearest with ties to even: the number is scaled by a power of
  two to a significand of 53 bits, which is rounded to an integer. The exponent is not
  bounded: subnormal results and overflow to \<^verbatim>\<open>Infinity\<close>, beyond any magnitude the
  statements below admit, are not described.
\<close>

definition fl :: "real \<Rightarrow> real" where
  "fl x =
     (if x = 0 then 0
      else
        (let e = \<lfloor>log 2 \<bar>x\<bar>\<rfloor> - 52
         in of_int (round_even (x / 2 powr of_int e)) * 2 powr of_int e))"

text \<open>The operators \<^verbatim>\<open>+\<close>, \<^verbatim>\<open>-\<close>, \<^verbatim>\<open>*\<close> and \<^verbatim>\<open>/\<close> on numbers. A division by zero
  (\<^verbatim>\<open>Infinity\<close> or \<^verbatim>\<open>NaN\<close> in JavaScript) does not arise: the only divisor is sixteen
  times the zoom factor, which every setter keeps at 0.25 or more.\<close>

definition js_add :: "real \<Rightarrow> real \<Rightarrow> real" where
  "js_add a b = fl (a + b)"

definition js_sub :: "real \<Rightarrow> real \<Rightarrow> real" where
  "js_sub a b = fl (a - b)"

definition js_mul :: "real \<Rightarrow> real \<Rightarrow> real" where
  "js_mul a b = fl (a * b)"

definition js_div :: "real \<Rightarrow> real \<Rightarrow> real" where
  "js_div a b = fl (a / b)"

subsection \<open>JavaScript array access\<close>

text \<open>\<^verbatim>\<open>xs[i]\<close>: the element, or \<^verbatim>\<open>undefined\<close> when \<open>i\<close> is not an index of the array.\<close>

definition js_index :: "'a list \<Rightarrow> int \<Rightarrow> 'a option" where
  "js_index xs i = (if 0 \<le> i \<and> i < int (length xs) then Some (xs ! nat i) else None)"

text \<open>
  \<^verbatim>\<open>row[i] = v\<close>: inside the array the element is replaced; at or beyond the length the
  array grows to \<open>i + 1\<close> elements, the new ones before \<open>i\<close> being holes; a negative
  \<open>i\<close> sets a property that is not an element, which leaves elements and length as
  they are (and the next copy \<^verbatim>\<open>[...row]\<close> drops it).
\<close>

definition js_assign :: "Row \<Rightarrow> int \<Rightarrow> Cell \<Rightarrow> Row" where
  "js_assign row i v =
     (if i < 0 then row
      else if i < int (length row) then row[nat i := Some v]
      else row @ replicate (nat i - length row) None @ [Some v])"

text \<open>\<^verbatim>\<open>g[y][x].blockId\<close>\<close>

definition getBlockId :: "Grid \<Rightarrow> int \<Rightarrow> int \<Rightarrow> error + string" where
  "getBlockId g x y =
     (case js_index g y of
        None \<Rightarrow> Inl TypeError
      | Some row \<Rightarrow>
          (case js_index row x of
             Some (Some c) \<Rightarrow> Inr (blockId c)
           | _ \<Rightarrow> Inl TypeError))"

text \<open>\<^verbatim>\<open>g[y][x] = c\<close>\<close>

definition setCell :: "Grid \<Rightarrow> int \<Rightarrow> int \<Rightarrow> Cell \<Rightarrow> error + Grid" where
  "setCell g x y c =
     (case js_index g y of
        None \<Rightarrow> Inl TypeError
      | Some row \<Rightarrow> Inr (g[nat y := js_assign row x c]))"

text \<open>\<^verbatim>\<open>g.map(row => [...row])\<close>: a fresh copy, the same value.\<close>

definition copyGrid :: "Grid \<Rightarrow> Grid" where
  "copyGrid g = map (\<lambda>row. row) g"

text \<open>The initial value of the \<^verbatim>\<open>grid\<close> hook, also what \<^verbatim>\<open>clearCanvas\<close> stores.\<close>

definition emptyGrid :: Grid where
  "emptyGrid = replicate (nat CANVAS_HEIGHT) (replicate (nat CANVAS_WIDTH) (Some \<lparr>blockId = ''air''\<rparr>))"

subsection \<open>Screen to grid\<close>

definition getCanvasCoordinates :: "EditorState \<Rightarrow> real \<Rightarrow> real \<Rightarrow> (int \<times> int) option" where
  "getCanvasCoordinates s clientX clientY =
     (case canvasRef s of
        None \<Rightarrow> None
      | Some (rect_left, rect_top) \<Rightarrow>
          (let x = \<lfloor>js_div (js_sub (js_sub clientX rect_left) (fst (panOffset s)))
                          (js_mul CELL_SIZE (zoom s))\<rfloor>;
               y = \<lfloor>js_div (js_sub (js_sub clientY rect_top) (snd (panOffset s)))
                          (js_mul CELL_SIZE (zoom s))\<rfloor>
           in Some (x, y)))"

subsection \<open>Painting\<close>

definition paintCell :: "EditorState \<Rightarrow> int \<Rightarrow> int \<Rightarrow> error + EditorState" where
  "paintCell s x y =
     (let newGrid = copyGrid (grid s) in
      if tool s = Brush then
        (case setCell newGrid x y \<lparr>blockId = selectedBlock s\<rparr> of
           Inl e \<Rightarrow> Inl e
         | Inr g \<Rightarrow> Inr (s\<lparr>grid := g\<rparr>))
      else if tool s = Eraser then
        (case setCell newGrid x y \<lparr>blockId = ''air''\<rparr> of
           Inl e \<Rightarrow> Inl e
         | Inr g \<Rightarrow> Inr (s\<lparr>grid := g\<rparr>))
      else Inr (s\<lparr>grid := newGrid\<rparr>))"

subsection \<open>Flood fill\<close>

text \<open>
  The \<^verbatim>\<open>while\<close> loop of \<^verbatim>\<open>floodFill\<close>. The work stack is a list whose head is the
  top: \<^verbatim>\<open>pop\<close> takes the head (\<open>hd\<close>, leaving \<open>tl\<close>), and
  \<^verbatim>\<open>push(a, b, c, d)\<close> leaves \<open>d\<close> on top. The loop
  need not end (it does not when target and replacement are equal), so not returning is
  the value \<open>None\<close>.
\<close>

partial_function (option) fillLoop ::
  "string \<Rightarrow> string \<Rightarrow> Grid \<Rightarrow> (int \<times> int) list \<Rightarrow> (error + Grid) option" where
  "fillLoop targetBlockId replacementBlockId newGrid stack =
     (if \<not> length stack > 0 then Some (Inr newGrid)
      else
        (case (hd stack, tl stack) of ((x, y), rest) \<Rightarrow>
           if x < 0 \<or> x \<ge> CANVAS_WIDTH \<or> y < 0 \<or> y \<ge> CANVAS_HEIGHT
           then fillLoop targetBlockId replacementBlockId newGrid rest
           else
             (case getBlockId newGrid x y of
                Inl e \<Rightarrow> Some (Inl e)
              | Inr b \<Rightarrow>
                  if b \<noteq> targetBlockId
                  then fillLoop targetBlockId replacementBlockId newGrid rest
                  else
                    (case setCell newGrid x y \<lparr>blockId = replacementBlockId\<rparr> of
                       Inl e \<Rightarrow> Some (Inl e)
                     | Inr g \<Rightarrow>
                         fillLoop targetBlockId replacementBlockId g
                           ((x, y - 1) # (x, y + 1) # (x - 1, y) # (x + 1, y) # rest)))))"

definition floodFill :: "EditorState \<Rightarrow> int \<Rightarrow> int \<Rightarrow> (error + EditorState) option" where
  "floodFill s startX startY =
     (case getBlockId (grid s) startX startY of
        Inl e \<Rightarrow> Some (Inl e)
      | Inr targetBlockId \<Rightarrow>
          (let replacementBlockId = (if tool s = Eraser then ''air'' else selectedBlock s) in
           if targetBlockId = replacementBlockId then Some (Inr s)
           else
             (case fillLoop targetBlockId replacementBlockId (copyGrid (grid s)) [(startX, startY)] of
                None \<Rightarrow> None
              | Some (Inl e) \<Rightarrow> Some (Inl e)
              | Some (Inr newGrid) \<Rightarrow> Some (Inr (s\<lparr>grid := newGrid\<rparr>)))))"

subsection \<open>Pointer events\<close>

text \<open>A mouse event carries one position, a touch event the positions of its touches.\<close>

datatype PointerEvent = MouseEvent real real | TouchEvent "(real \<times> real) list"

definition handleCanvasClick :: "EditorState \<Rightarrow> PointerEvent \<Rightarrow> (error + EditorState) option" where
  "handleCanvasClick s e =
     (case (case e of
              TouchEvent touches \<Rightarrow> (case touches of [] \<Rightarrow> None | t # _ \<Rightarrow> Some t)
            | MouseEvent clientX clientY \<Rightarrow> Some (clientX, clientY)) of
        None \<Rightarrow> Some (Inr s)
      | Some (clientX, clientY) \<Rightarrow>
          (case getCanvasCoordinates s clientX clientY of
             None \<Rightarrow> Some (Inr s)
           | Some (x, y) \<Rightarrow>
               if x < 0 \<or> x \<ge> CANVAS_WIDTH \<or> y < 0 \<or> y \<ge> CANVAS_HEIGHT then Some (Inr s)
               else if tool s = Fill then floodFill s x y
               else Some (paintCell s x y)))"

subsection \<open>Zoom\<close>

text \<open>The literal \<^verbatim>\<open>0.1\<close> is the double nearest to one tenth; 0.25 and 5 are doubles.\<close>

definition handleWheel :: "EditorState \<Rightarrow> real \<Rightarrow> EditorState" where
  "handleWheel s deltaY =
     (let delta = (if deltaY > 0 then - fl 0.1 else fl 0.1)
      in s\<lparr>zoom := max 0.25 (min 5 (js_add (zoom s) delta))\<rparr>)"

text \<open>The two zoom buttons of \<^verbatim>\<open>SidebarContent\<close>.\<close>

definition zoomOutClick :: "EditorState \<Rightarrow> EditorState" where
  "zoomOutClick s = s\<lparr>zoom := max 0.25 (js_sub (zoom s) 0.25)\<rparr>"

definition zoomInClick :: "EditorState \<Rightarrow> EditorState" where
  "zoomInClick s = s\<lparr>zoom := min 5 (js_add (zoom s) 0.25)\<rparr>"

datatype ZoomEvent = WheelEvent real | ZoomOutButton | ZoomInButton

fun zoomStep :: "EditorState \<Rightarrow> ZoomEvent \<Rightarrow> EditorState" where
  "zoomStep s (WheelEvent deltaY) = handleWheel s deltaY"
| "zoomStep s ZoomOutButton = zoomOutClick s"
| "zoomStep s ZoomInButton = zoomInClick s"

subsection \<open>Predicates of the statements\<close>

definition inCanvas :: "int \<Rightarrow> int \<Rightarrow> bool" where
  "inCanvas x y \<longleftrightarrow> 0 \<le> x \<and> x < CANVAS_WIDTH \<and> 0 \<le> y \<and> y < CANVAS_HEIGHT"

text \<open>The invariant of the data model: 48 rows of 64 cells, none of them a hole.\<close>

definition wf_grid :: "Grid \<Rightarrow> bool" where
  "wf_grid g \<longleftrightarrow>
     int (length g) = CANVAS_HEIGHT \<and>
     list_all (\<lambda>row. int (length row) = CANVAS_WIDTH \<and> list_all (\<lambda>c. c \<noteq> None) row) g"

text \<open>The hooks as the component creates them; the identifier of the block selected at
  the start comes from the block catalogue, which is a parameter here.\<close>

definition initialState :: "string \<Rightarrow> EditorState" where
  "initialState sel =
     \<lparr>grid = emptyGrid, selectedBlock = sel, tool = Brush, zoom = 1,
      panOffset = (0, 0), canvasRef = None\<rparr>"

text \<open>
  The cells joined to the start cell by a path of horizontal and vertical steps through
  cells of the canvas that all hold the identifier \<open>t\<close>.
\<close>

inductive connected :: "Grid \<Rightarrow> string \<Rightarrow> int \<times> int \<Rightarrow> int \<times> int \<Rightarrow> bool"
  for g :: Grid and t :: string and start :: "int \<times> int" where
  start: "inCanvas (fst start) (snd start) \<Longrightarrow> getBlockId g (fst start) (snd start) = Inr t \<Longrightarrow>
            connected g t start start"
| step: "connected g t start (x, y) \<Longrightarrow>
           (x', y') \<in> {(x + 1, y), (x - 1, y), (x, y + 1), (x, y - 1)} \<Longrightarrow>
           inCanvas x' y' \<Longrightarrow> getBlockId g x' y' = Inr t \<Longrightarrow>
           connected g t start (x', y')"

text \<open>A mounted editor: the canvas at (10, 20) of the page, zoomed and panned.\<close>

definition mountedState :: EditorState where
  "mountedState =
     (initialState ''stone'')\<lparr>zoom := 2.5, panOffset := (120, - 40), canvasRef := Some (10, 20)\<rparr>"

text \<open>A mounted editor at zoom 1 whose view has been panned \<open>10\<^sup>1\<^sup>7\<close> pixels to the right.\<close>

definition farPanState :: EditorState where
  "farPanState =
     (initialState ''stone'')\<lparr>panOffset := (100000000000000000, 0), canvasRef := Some (0, 0)\<rparr>"

subsection \<open>Notions of the flood-fill proofs\<close>

text \<open>The replacement identifier \<open>floodFill\<close> computes from the tool and the selected block.\<close>

definition replacementBlockId :: "EditorState \<Rightarrow> string" where
  "replacementBlockId s = (if tool s = Eraser then ''air'' else selectedBlock s)"

text \<open>The grid after a successful \<^verbatim>\<open>newGrid[y][x] = { blockId: r }\<close>, and the stack after the
  \<^verbatim>\<open>push\<close> that follows it.\<close>

abbreviation fillCell :: "Grid \<Rightarrow> int \<Rightarrow> int \<Rightarrow> string \<Rightarrow> Grid" where
  "fillCell g x y r \<equiv> g[nat y := (g ! nat y)[nat x := Some \<lparr>blockId = r\<rparr>]]"

definition pushNeighbours :: "int \<Rightarrow> int \<Rightarrow> (int \<times> int) list \<Rightarrow> (int \<times> int) list" where
  "pushNeighbours x y st = (x, y - 1) # (x, y + 1) # (x - 1, y) # (x + 1, y) # st"

text \<open>The cells that hold the identifier \<open>t\<close>; their number bounds the writes still to come.\<close>

definition targets :: "Grid \<Rightarrow> string \<Rightarrow> (int \<times> int) set" where
  "targets g t = {(x, y). getBlockId g x y = Inr t}"

text \<open>
  The loop invariant, for the grid \<open>g0\<close> the fill began with: the grid keeps its
  dimensions; a cell differs from \<open>g0\<close> only if it is connected to the start and now
  holds \<open>r\<close>; a stacked cell of the canvas holding \<open>t\<close> in \<open>g0\<close> is connected to the
  start; every neighbour of a filled cell that held \<open>t\<close> is filled or stacked; and the
  start cell is filled or stacked.
\<close>

definition fillInv :: "Grid \<Rightarrow> string \<Rightarrow> string \<Rightarrow> int \<times> int \<Rightarrow> Grid \<Rightarrow> (int \<times> int) list \<Rightarrow> bool" where
  "fillInv g0 t r start g st \<longleftrightarrow>
     wf_grid g \<and> connected g0 t start start \<and>
     (\<forall>x y. getBlockId g x y = getBlockId g0 x y \<or>
            (getBlockId g x y = Inr r \<and> connected g0 t start (x, y))) \<and>
     (\<forall>x y. (x, y) \<in> set st \<longrightarrow> inCanvas x y \<longrightarrow> getBlockId g0 x y = Inr t \<longrightarrow>
            connected g0 t start (x, y)) \<and>
     (\<forall>x y x' y'. connected g0 t start (x, y) \<longrightarrow> getBlockId g x y = Inr r \<longrightarrow>
            (x', y') \<in> {(x + 1, y), (x - 1, y), (x, y + 1), (x, y - 1)} \<longrightarrow>
            inCanvas x' y' \<longrightarrow> getBlockId g0 x' y' = Inr t \<longrightarrow>
            getBlockId g x' y' = Inr r \<or> (x', y') \<in> set st) \<and>
     (getBlockId g (fst start) (snd start) = Inr r \<or> start \<in> set st)"

text \<open>An editor with the fill tool and the block \<open>''water''\<close> selected, on the empty grid.\<close>

definition fillState :: EditorState where
  "fillState = (initialState ''water'')\<lparr>tool := Fill\<rparr>"

text \<open>
  Two 3 by 3 blocks of \<open>''stone''\<close> in rows 1 to 3, one in columns 1 to 3 and one in
  columns 5 to 7, on an otherwise empty grid; and the fill editor on that grid.
\<close>

definition twoBlocksGrid :: Grid where
  "twoBlocksGrid =
     map (\<lambda>j. map (\<lambda>i. Some \<lparr>blockId =
                 (if 1 \<le> j \<and> j \<le> 3 \<and> (1 \<le> i \<and> i \<le> 3 \<or> 5 \<le> i \<and> i \<le> 7)
                  then ''stone'' else ''air'')\<rparr>) [0..<64]) [0..<48]"

definition twoBlocksState :: EditorState where
  "twoBlocksState = fillState\<lparr>grid := twoBlocksGrid\<rparr>"

section \<open>Rounding\<close>

lemma round_even_error: "\<bar>of_int (round_even y) - y\<bar> \<le> 1 / 2"
proof -
  have "of_int \<lfloor>y\<rfloor> \<le> y" "y < of_int \<lfloor>y\<rfloor> + 1"
    by linarith+
  then show ?thesis
    by (auto simp: round_even_def Let_def)
qed

text \<open>Evaluating \<open>fl\<close> from the binade of its argument.\<close>

lemma fl_bracket:
  assumes "2 powr of_int k \<le> \<bar>x\<bar>" "\<bar>x\<bar> < 2 powr of_int (k + 1)"
  shows "fl x = of_int (round_even (x / 2 powr of_int (k - 52))) * 2 powr of_int (k - 52)"
proof -
  have pos: "0 < \<bar>x\<bar>"
    using assms(1) by (smt (verit) powr_gt_zero)
  then have "\<lfloor>log 2 \<bar>x\<bar>\<rfloor> = k"
    using assms by (simp add: floor_log_eq_powr_iff)
  with pos show ?thesis
    by (simp add: fl_def)
qed

lemma fl_bracket_small:
  assumes "2 powr of_int k \<le> \<bar>x\<bar>" "\<bar>x\<bar> < 2 powr of_int (k + 1)" "k + int n = 52"
  shows "fl x = of_int (round_even (x * 2 ^ n)) / 2 ^ n"
proof -
  from assms(3) have "k - 52 = - int n" by simp
  then have "2 powr of_int (k - 52) = 1 / (2::real) ^ n"
    by (simp add: powr_minus powr_realpow divide_inverse)
  with fl_bracket[OF assms(1,2)] show ?thesis
    by simp
qed

text \<open>The relative error of one rounding is at most \<open>2\<^sup>-\<^sup>5\<^sup>3\<close>.\<close>

lemma fl_error: "\<bar>fl x - x\<bar> \<le> \<bar>x\<bar> / 2 ^ 53"
proof (cases "x = 0")
  case True
  then show ?thesis by (simp add: fl_def)
next
  case False
  define L where "L = \<lfloor>log 2 \<bar>x\<bar>\<rfloor>"
  define s :: real where "s = 2 powr of_int (L - 52)"
  define y where "y = x / s"
  have s: "0 < s" by (simp add: s_def)
  have "2 powr of_int L \<le> 2 powr log 2 \<bar>x\<bar>"
    unfolding L_def by (intro powr_mono) simp_all
  also have "\<dots> = \<bar>x\<bar>"
    using False by simp
  finally have Lx: "2 powr of_int L \<le> \<bar>x\<bar>" .
  have "s = 2 powr of_int L / 2 ^ 52"
    by (simp add: s_def powr_diff)
  with Lx have sx: "s \<le> \<bar>x\<bar> / 2 ^ 52"
    by (simp add: divide_right_mono)
  have "fl x = of_int (round_even y) * s"
    using False by (simp add: fl_def L_def s_def y_def)
  moreover have "x = y * s"
    using s by (simp add: y_def)
  ultimately have "fl x - x = (of_int (round_even y) - y) * s"
    by (simp add: algebra_simps)
  then have "\<bar>fl x - x\<bar> = \<bar>of_int (round_even y) - y\<bar> * s"
    using s by (simp add: abs_mult)
  also have "\<dots> \<le> (1 / 2) * s"
    using round_even_error[of y] s by (intro mult_right_mono) simp_all
  also have "\<dots> \<le> (1 / 2) * (\<bar>x\<bar> / 2 ^ 52)"
    using sx by simp
  also have "\<dots> = \<bar>x\<bar> / 2 ^ 53"
    by simp
  finally show ?thesis .
qed

lemma fl_error_bound:
  assumes "\<bar>x\<bar> \<le> M"
  shows "\<bar>fl x - x\<bar> \<le> M / 2 ^ 53"
proof -
  from assms have "\<bar>x\<bar> / 2 ^ 53 \<le> M / 2 ^ 53"
    by (simp add: divide_right_mono)
  with fl_error[of x] show ?thesis by linarith
qed

lemma fl_exact_small:
  assumes "2 powr of_int k \<le> \<bar>x\<bar>" "\<bar>x\<bar> < 2 powr of_int (k + 1)" "k + int n = 52"
    and "x * 2 ^ n = of_int m"
  shows "fl x = x"
proof -
  have "round_even (of_int m) = m"
    by (simp add: round_even_def)
  with fl_bracket_small[OF assms(1-3)] assms(4) have "fl x = of_int m / 2 ^ n"
    by simp
  also have "\<dots> = x"
    using assms(4)[symmetric] by simp
  finally show ?thesis .
qed

text \<open>The roundings the examples need.\<close>

lemma fl_examples:
  "fl 3 = 3" "fl 6 = 6" "fl 16 = 16" "fl 40 = 40" "fl 56 = 56" "fl 80 = 80" "fl 88 = 88"
  "fl 96 = 96" "fl 120 = 120" "fl (- 5) = - 5" "fl (- 125) = - 125"
  "fl (7 / 2) = 7 / 2" "fl (- (25 / 8)) = - (25 / 8)"
  "fl 100000000000000096 = 100000000000000096"
  "fl 100000000000000088 = 100000000000000096"
proof -
  show "fl 3 = 3" by (rule fl_exact_small[of 1 _ 51 "3 * 2 ^ 51"]) simp_all
  show "fl 6 = 6" by (rule fl_exact_small[of 2 _ 50 "6 * 2 ^ 50"]) simp_all
  show "fl 16 = 16" by (rule fl_exact_small[of 4 _ 48 "16 * 2 ^ 48"]) simp_all
  show "fl 40 = 40" by (rule fl_exact_small[of 5 _ 47 "40 * 2 ^ 47"]) simp_all
  show "fl 56 = 56" by (rule fl_exact_small[of 5 _ 47 "56 * 2 ^ 47"]) simp_all
  show "fl 80 = 80" by (rule fl_exact_small[of 6 _ 46 "80 * 2 ^ 46"]) simp_all
  show "fl 88 = 88" by (rule fl_exact_small[of 6 _ 46 "88 * 2 ^ 46"]) simp_all
  show "fl 96 = 96" by (rule fl_exact_small[of 6 _ 46 "96 * 2 ^ 46"]) simp_all
  show "fl 120 = 120" by (rule fl_exact_small[of 6 _ 46 "120 * 2 ^ 46"]) simp_all
  show "fl (- 5) = - 5" by (rule fl_exact_small[of 2 _ 50 "- 5 * 2 ^ 50"]) simp_all
  show "fl (- 125) = - 125" by (rule fl_exact_small[of 6 _ 46 "- 125 * 2 ^ 46"]) simp_all
  show "fl (7 / 2) = 7 / 2" by (rule fl_exact_small[of 1 _ 51 "7 * 2 ^ 50"]) simp_all
  show "fl (- (25 / 8)) = - (25 / 8)" by (rule fl_exact_small[of 1 _ 51 "- 25 * 2 ^ 48"]) simp_all
  show "fl 100000000000000096 = 100000000000000096"
    by (subst fl_bracket[of 56]) (simp_all add: round_even_def Let_def)
  show "fl 100000000000000088 = 100000000000000096"
    by (subst fl_bracket[of 56]) (simp_all add: round_even_def Let_def)
qed

text \<open>Rounding keeps a zoom factor on its side of the clamp.\<close>

lemma fl_le_5:
  assumes "0 \<le> x" "x \<le> 19 / 4"
  shows "fl x \<le> 5"
proof -
  from assms have "\<bar>x\<bar> \<le> 19 / 4" by simp
  from fl_error_bound[OF this] have "\<bar>fl x - x\<bar> \<le> 19 / 4 / 2 ^ 53" .
  moreover have "(19::real) / 4 / 2 ^ 53 \<le> 1 / 4" by simp
  ultimately show ?thesis using assms by linarith
qed

lemma fl_ge_quarter:
  assumes "1 / 2 \<le> x" "x \<le> 21 / 4"
  shows "1 / 4 \<le> fl x"
proof -
  from assms have "\<bar>x\<bar> \<le> 21 / 4" by simp
  from fl_error_bound[OF this] have "\<bar>fl x - x\<bar> \<le> 21 / 4 / 2 ^ 53" .
  moreover have "(21::real) / 4 / 2 ^ 53 \<le> 1 / 4" by simp
  ultimately show ?thesis using assms by linarith
qed

section \<open>Reading and writing cells\<close>

lemma fillLoop_Nil: "fillLoop t r g [] = Some (Inr g)"
  by (subst fillLoop.simps) simp

lemma fillLoop_Cons:
  "fillLoop t r g ((x, y) # rest) =
     (if x < 0 \<or> x \<ge> CANVAS_WIDTH \<or> y < 0 \<or> y \<ge> CANVAS_HEIGHT
      then fillLoop t r g rest
      else
        (case getBlockId g x y of
           Inl e \<Rightarrow> Some (Inl e)
         | Inr b \<Rightarrow>
             if b \<noteq> t then fillLoop t r g rest
             else
               (case setCell g x y \<lparr>blockId = r\<rparr> of
                  Inl e \<Rightarrow> Some (Inl e)
                | Inr g' \<Rightarrow>
                    fillLoop t r g' ((x, y - 1) # (x, y + 1) # (x - 1, y) # (x + 1, y) # rest))))"
  by (subst fillLoop.simps) simp

lemma getBlockId_Inr_iff:
  "getBlockId g x y = Inr b \<longleftrightarrow>
     0 \<le> y \<and> y < int (length g) \<and> 0 \<le> x \<and> x < int (length (g ! nat y)) \<and>
     (\<exists>c. g ! nat y ! nat x = Some c \<and> blockId c = b)"
  by (auto simp: getBlockId_def js_index_def split: option.splits)

lemma setCell_readable:
  assumes "getBlockId g x y = Inr b"
  shows "setCell g x y c = Inr (g[nat y := (g ! nat y)[nat x := Some c]])"
  using assms by (auto simp: getBlockId_Inr_iff setCell_def js_index_def js_assign_def)

lemma error_sum_eqI:
  fixes u v :: "error + 'a"
  assumes "\<And>b. u = Inr b \<longleftrightarrow> v = Inr b"
  shows "u = v"
proof (cases u)
  case (Inl e)
  with assms have "\<And>b. v \<noteq> Inr b" by auto
  then obtain e' where "v = Inl e'" by (cases v) auto
  with Inl show ?thesis by (cases e; cases e') simp
next
  case (Inr b)
  with assms have "v = Inr b" by blast
  with Inr show ?thesis by simp
qed

lemma getBlockId_update_Inr:
  assumes "getBlockId g x y = Inr b"
  shows "getBlockId (g[nat y := (g ! nat y)[nat x := Some c]]) x' y' = Inr b' \<longleftrightarrow>
           (if x' = x \<and> y' = y then b' = blockId c else getBlockId g x' y' = Inr b')"
proof -
  from assms have y: "0 \<le> y" "nat y < length g" "y < int (length g)"
    and x: "0 \<le> x" "nat x < length (g ! nat y)" "x < int (length (g ! nat y))"
    by (auto simp: getBlockId_Inr_iff)
  show ?thesis
  proof (cases "0 \<le> y' \<and> 0 \<le> x'")
    case False
    with x y show ?thesis
      by (auto simp: getBlockId_Inr_iff)
  next
    case True
    then have ny: "nat y' = nat y \<longleftrightarrow> y' = y" and nx: "nat x' = nat x \<longleftrightarrow> x' = x"
      using x y by (simp_all add: eq_nat_nat_iff)
    show ?thesis
    proof (cases "y' = y")
      case True
      with x y nx show ?thesis
        by (cases "x' = x") (auto simp: getBlockId_Inr_iff nth_list_update)
    next
      case False
      with y ny show ?thesis
        by (simp add: getBlockId_Inr_iff nth_list_update)
    qed
  qed
qed

lemma getBlockId_update:
  assumes "getBlockId g x y = Inr b"
  shows "getBlockId (g[nat y := (g ! nat y)[nat x := Some c]]) x' y' =
           (if x' = x \<and> y' = y then Inr (blockId c) else getBlockId g x' y')"
  by (rule error_sum_eqI) (auto simp: getBlockId_update_Inr[OF assms])

lemma wf_grid_readable:
  assumes "wf_grid g" "inCanvas x y"
  shows "\<exists>b. getBlockId g x y = Inr b"
proof -
  from assms have y: "0 \<le> y" "nat y < length g"
    by (auto simp: wf_grid_def inCanvas_def)
  with assms have "int (length (g ! nat y)) = CANVAS_WIDTH" "list_all (\<lambda>c. c \<noteq> None) (g ! nat y)"
    by (auto simp: wf_grid_def list_all_length)
  with assms y show ?thesis
    by (auto simp: getBlockId_Inr_iff inCanvas_def list_all_length)
qed

lemma wf_grid_outside:
  assumes "wf_grid g" "\<not> inCanvas x y"
  shows "getBlockId g x y = Inl TypeError"
proof (cases "getBlockId g x y")
  case (Inl e)
  then show ?thesis by (cases e) simp
next
  case (Inr b)
  then have y: "0 \<le> y" "nat y < length g" "y < int (length g)" and x: "0 \<le> x" "x < int (length (g ! nat y))"
    by (auto simp: getBlockId_Inr_iff)
  with assms have "int (length (g ! nat y)) = CANVAS_WIDTH"
    by (auto simp: wf_grid_def list_all_length)
  with assms x y show ?thesis by (auto simp: inCanvas_def wf_grid_def)
qed

lemma wf_grid_update:
  assumes "wf_grid g" "getBlockId g x y = Inr b"
  shows "wf_grid (g[nat y := (g ! nat y)[nat x := Some c]])"
proof -
  let ?row = "(g ! nat y)[nat x := Some c]"
  from assms(2) have y: "nat y < length g" and x: "nat x < length (g ! nat y)"
    by (auto simp: getBlockId_Inr_iff)
  from assms(1) have len: "int (length g) = CANVAS_HEIGHT"
    and rows: "\<And>n. n < length g \<Longrightarrow>
          int (length (g ! n)) = CANVAS_WIDTH \<and> (\<forall>k<length (g ! n). g ! n ! k \<noteq> None)"
    by (simp_all add: wf_grid_def list_all_length)
  have "?row ! k \<noteq> None" if "k < length (g ! nat y)" for k
    using rows[OF y] x that by (cases "k = nat x") simp_all
  with rows[OF y] have row: "int (length ?row) = CANVAS_WIDTH \<and> (\<forall>k<length ?row. ?row ! k \<noteq> None)"
    by simp
  have "int (length (g[nat y := ?row] ! n)) = CANVAS_WIDTH \<and>
      (\<forall>k<length (g[nat y := ?row] ! n). g[nat y := ?row] ! n ! k \<noteq> None)"
    if "n < length g" for n
  proof (cases "n = nat y")
    case True
    with y have "g[nat y := ?row] ! n = ?row" by simp
    with row show ?thesis by simp
  next
    case False
    then have "g[nat y := ?row] ! n = g ! n" by simp
    with rows[OF that] show ?thesis by simp
  qed
  with len show ?thesis
    by (simp add: wf_grid_def list_all_length)
qed

lemma copyGrid_id: "copyGrid g = g"
  by (simp add: copyGrid_def)

lemma wf_emptyGrid: "wf_grid emptyGrid"
  by (simp add: wf_grid_def emptyGrid_def CANVAS_HEIGHT_def CANVAS_WIDTH_def list_all_length)


lemma getBlockId_emptyGrid:
  assumes "inCanvas x y"
  shows "getBlockId emptyGrid x y = Inr ''air''"
proof -
  from assms have "nat y < 48" "nat x < 64" "0 \<le> x" "0 \<le> y" "x < 64" "y < 48"
    by (auto simp: inCanvas_def CANVAS_WIDTH_def CANVAS_HEIGHT_def)
  then show ?thesis
    by (simp add: getBlockId_Inr_iff emptyGrid_def CANVAS_WIDTH_def CANVAS_HEIGHT_def)
qed

lemma inCanvas_5_5: "inCanvas 5 5"
  by (simp add: inCanvas_def CANVAS_WIDTH_def CANVAS_HEIGHT_def)

section \<open>Painting a cell\<close>

text \<open>
  C9. For a grid of the canvas's dimensions and a cell of the canvas, \<open>paintCell\<close> with
  the brush stores the selected block's identifier in that cell, with the eraser it
  stores \<open>''air''\<close>; reading the cell back gives the identifier written, every other
  cell reads as before, and nothing else of the state changes.
\<close>

theorem paintCell_locality:
  assumes "wf_grid (grid s)" "inCanvas x y" "tool s = Brush \<or> tool s = Eraser"
  shows "\<exists>g'. paintCell s x y = Inr (s\<lparr>grid := g'\<rparr>) \<and> wf_grid g' \<and>
           getBlockId g' x y = Inr (if tool s = Brush then selectedBlock s else ''air'') \<and>
           (\<forall>x' y'. (x', y') \<noteq> (x, y) \<longrightarrow> getBlockId g' x' y' = getBlockId (grid s) x' y')"
proof -
  from assms obtain b where b: "getBlockId (grid s) x y = Inr b"
    using wf_grid_readable by blast
  let ?c = "\<lparr>blockId = (if tool s = Brush then selectedBlock s else ''air'')\<rparr>"
  let ?g = "(grid s)[nat y := (grid s ! nat y)[nat x := Some ?c]]"
  from assms(3) have "paintCell s x y = Inr (s\<lparr>grid := ?g\<rparr>)"
    by (auto simp: paintCell_def copyGrid_id setCell_readable[OF b])
  moreover have "wf_grid ?g"
    using assms(1) b by (rule wf_grid_update)
  moreover have "getBlockId ?g x' y' = (if x' = x \<and> y' = y then Inr (blockId ?c) else getBlockId (grid s) x' y')" for x' y'
    using b by (rule getBlockId_update)
  ultimately show ?thesis by auto
qed

theorem paintCell_locality_witness:
  "wf_grid (grid (initialState ''stone'')) \<and> inCanvas 5 5 \<and>
   (\<exists>g'. paintCell (initialState ''stone'') 5 5 = Inr ((initialState ''stone'')\<lparr>grid := g'\<rparr>) \<and>
      getBlockId g' 5 5 = Inr ''stone'' \<and> getBlockId g' 6 5 = Inr ''air'')"
proof -
  have wf: "wf_grid (grid (initialState ''stone''))"
    by (simp add: initialState_def wf_emptyGrid)
  have t: "tool (initialState ''stone'') = Brush \<or> tool (initialState ''stone'') = Eraser"
    by (simp add: initialState_def)
  have air: "getBlockId (grid (initialState ''stone'')) 6 5 = Inr ''air''"
    by (simp add: initialState_def getBlockId_emptyGrid inCanvas_def CANVAS_WIDTH_def CANVAS_HEIGHT_def)
  from paintCell_locality[OF wf inCanvas_5_5 t] air wf inCanvas_5_5 show ?thesis
    by (auto simp: initialState_def)
qed

text \<open>
  C1, as stated, fails: \<open>paintCell\<close> has no bounds check of its own. Called with a row
  outside the grid it raises a \<^verbatim>\<open>TypeError\<close> (the row read is \<^verbatim>\<open>undefined\<close>), and
  called with column 64 it lengthens the row.
\<close>

theorem paintCell_out_of_range_counterexample:
  "paintCell (initialState ''stone'') 0 48 = Inl TypeError \<and>
   paintCell (initialState ''stone'') 64 0 \<noteq> Inr (initialState ''stone'')"
proof
  show "paintCell (initialState ''stone'') 0 48 = Inl TypeError"
    by (simp add: paintCell_def initialState_def copyGrid_def setCell_def js_index_def emptyGrid_def
        CANVAS_HEIGHT_def CANVAS_WIDTH_def)
  show "paintCell (initialState ''stone'') 64 0 \<noteq> Inr (initialState ''stone'')"
  proof
    assume "paintCell (initialState ''stone'') 64 0 = Inr (initialState ''stone'')"
    then have "grid (initialState ''stone'') =
       emptyGrid[0 := js_assign (emptyGrid ! 0) 64 \<lparr>blockId = ''stone''\<rparr>]"
      by (simp add: paintCell_def initialState_def copyGrid_def setCell_def js_index_def emptyGrid_def
          CANVAS_HEIGHT_def CANVAS_WIDTH_def)
    then have "length (grid (initialState ''stone'') ! 0) =
       length (emptyGrid[0 := js_assign (emptyGrid ! 0) 64 \<lparr>blockId = ''stone''\<rparr>] ! 0)"
      by simp
    then show False
      by (simp add: initialState_def js_assign_def emptyGrid_def CANVAS_HEIGHT_def CANVAS_WIDTH_def)
  qed
qed

text \<open>
  C1, amended. The guard is in the caller: when the cell computed from a mouse or touch
  position lies outside the canvas, \<open>handleCanvasClick\<close> returns without painting or
  filling; the state is unchanged and no error is raised.
\<close>

theorem handleCanvasClick_ignores_out_of_range:
  assumes "getCanvasCoordinates s clientX clientY = Some (x, y)" "\<not> inCanvas x y"
  shows "handleCanvasClick s (MouseEvent clientX clientY) = Some (Inr s) \<and>
         handleCanvasClick s (TouchEvent ((clientX, clientY) # touches)) = Some (Inr s)"
  using assms by (auto simp: handleCanvasClick_def inCanvas_def)

theorem handleCanvasClick_ignores_out_of_range_witness:
  "getCanvasCoordinates mountedState 5 100 = Some (- 4, 3) \<and> \<not> inCanvas (- 4) 3 \<and>
   handleCanvasClick mountedState (MouseEvent 5 100) = Some (Inr mountedState) \<and>
   handleCanvasClick mountedState (TouchEvent [(5, 100)]) = Some (Inr mountedState)"
proof -
  have c: "getCanvasCoordinates mountedState 5 100 = Some (- 4, 3)"
    by (simp add: getCanvasCoordinates_def mountedState_def CELL_SIZE_def
        js_sub_def js_mul_def js_div_def fl_examples)
  have o: "\<not> inCanvas (- 4) 3"
    by (simp add: inCanvas_def)
  from handleCanvasClick_ignores_out_of_range[OF c o, of "[]"] c o show ?thesis
    by simp
qed

section \<open>Zoom\<close>

text \<open>
  C8. From a zoom factor between 0.25 and 5, any finite sequence of wheel steps and zoom
  button clicks leaves the zoom factor between 0.25 and 5.
\<close>

theorem zoom_clamp_invariant:
  assumes "0.25 \<le> zoom s" "zoom s \<le> 5"
  shows "0.25 \<le> zoom (foldl zoomStep s evs) \<and> zoom (foldl zoomStep s evs) \<le> 5"
  using assms
proof (induction evs arbitrary: s)
  case Nil
  then show ?case by simp
next
  case (Cons e evs)
  have "0.25 \<le> zoom (zoomStep s e) \<and> zoom (zoomStep s e) \<le> 5"
  proof (cases e)
    case (WheelEvent deltaY)
    then show ?thesis
      by (simp add: handleWheel_def Let_def)
  next
    case ZoomOutButton
    from Cons.prems have "fl (zoom s - 1 / 4) \<le> 5"
      by (intro fl_le_5) simp_all
    with ZoomOutButton show ?thesis
      by (simp add: zoomOutClick_def js_sub_def)
  next
    case ZoomInButton
    from Cons.prems have "1 / 4 \<le> fl (zoom s + 1 / 4)"
      by (intro fl_ge_quarter) simp_all
    with ZoomInButton show ?thesis
      by (simp add: zoomInClick_def js_add_def)
  qed
  with Cons.IH[of "zoomStep s e"] show ?case by simp
qed

theorem zoom_clamp_invariant_witness:
  "0.25 \<le> zoom mountedState \<and> zoom mountedState \<le> 5 \<and>
   0.25 \<le> zoom (foldl zoomStep mountedState
             [ZoomInButton, ZoomInButton, WheelEvent (- 3), ZoomOutButton, WheelEvent 3]) \<and>
   zoom (foldl zoomStep mountedState
             [ZoomInButton, ZoomInButton, WheelEvent (- 3), ZoomOutButton, WheelEvent 3]) \<le> 5"
proof -
  have lo: "0.25 \<le> zoom mountedState" and hi: "zoom mountedState \<le> 5"
    by (simp_all add: mountedState_def)
  from zoom_clamp_invariant[OF lo hi] lo hi show ?thesis
    by blast
qed

section \<open>Screen to grid and back\<close>

text \<open>
  The centre of a cell, computed in doubles from a zoom factor between 0.25 and 5, a pan
  offset and a canvas position of magnitude at most \<open>2\<^sup>4\<^sup>9\<close>, and taken back through
  the subtractions and the division of \<open>getCanvasCoordinates\<close>: the five roundings on the
  way move the numerator by less than a quarter of the smallest cell.
\<close>

lemma cell_center_roundtrip:
  fixes z p L :: real and k :: int
  assumes k: "0 \<le> k" "k < 64" and z: "1 / 4 \<le> z" "z \<le> 5"
    and p: "\<bar>p\<bar> \<le> 2 ^ 49" and L: "\<bar>L\<bar> \<le> 2 ^ 49"
  shows "\<lfloor>js_div (js_sub (js_sub (js_add L (js_add (js_mul (of_int k * CELL_SIZE + 8) z) p)) L) p)
            (js_mul CELL_SIZE z)\<rfloor> = k"
proof -
  define h :: real where "h = of_int k + 1 / 2"
  define w :: real where "w = 16 * z"
  define a1 where "a1 = fl ((of_int k * 16 + 8) * z)"
  define a2 where "a2 = fl (a1 + p)"
  define X where "X = fl (L + a2)"
  define b1 where "b1 = fl (X - L)"
  define b2 where "b2 = fl (b1 - p)"
  define d where "d = fl (16 * z)"
  define q where "q = b2 / d"
  from k have h: "1 / 2 \<le> h" "h \<le> 64"
    by (simp_all add: h_def)
  from z have w: "4 \<le> w" "w \<le> 80"
    by (simp_all add: w_def)
  have cz: "(of_int k * 16 + 8) * z = h * w"
    by (simp add: h_def w_def algebra_simps)
  have hw: "0 \<le> h * w" "h * w \<le> 5120"
  proof -
    from h w show "0 \<le> h * w" by simp
    from h w have "h * w \<le> 64 * 80"
      by (intro mult_mono) simp_all
    then show "h * w \<le> 5120" by simp
  qed
  have n1: "(5120::real) / 2 ^ 53 \<le> 1 / 1000" "(5121::real) / 2 ^ 53 \<le> 1 / 1000"
    "(2::real) ^ 50 / 2 ^ 53 = 1 / 8" "(2::real) ^ 51 / 2 ^ 53 = 1 / 4"
    "(2::real) ^ 49 + 5122 \<le> 2 ^ 50" "(2::real) ^ 49 + 2 ^ 49 + 5122 \<le> 2 ^ 51"
    "(80::real) / 2 ^ 53 \<le> 1 / 1000" "(64::real) * (80 / 2 ^ 53) \<le> 1 / 1000"
    "(65::real) / 2 ^ 53 \<le> 1 / 1000"
    by simp_all
  have e1: "\<bar>a1 - h * w\<bar> \<le> 5120 / 2 ^ 53"
    unfolding a1_def cz using hw by (intro fl_error_bound) simp
  have "\<bar>a1 + p\<bar> \<le> 2 ^ 50"
    using e1 hw p n1 by linarith
  then have e2: "\<bar>a2 - (a1 + p)\<bar> \<le> 2 ^ 50 / 2 ^ 53"
    unfolding a2_def by (rule fl_error_bound)
  have "\<bar>L + a2\<bar> \<le> 2 ^ 51"
    using e1 e2 hw p L n1 by linarith
  then have e3: "\<bar>X - (L + a2)\<bar> \<le> 2 ^ 51 / 2 ^ 53"
    unfolding X_def by (rule fl_error_bound)
  have "\<bar>X - L\<bar> \<le> 2 ^ 50"
    using e1 e2 e3 hw p n1 by linarith
  then have e4: "\<bar>b1 - (X - L)\<bar> \<le> 2 ^ 50 / 2 ^ 53"
    unfolding b1_def by (rule fl_error_bound)
  have "\<bar>b1 - p\<bar> \<le> 5121"
    using e1 e2 e3 e4 hw n1 by linarith
  then have e5: "\<bar>b2 - (b1 - p)\<bar> \<le> 5121 / 2 ^ 53"
    unfolding b2_def by (rule fl_error_bound)
  have num: "\<bar>b2 - h * w\<bar> \<le> 51 / 100"
    using e1 e2 e3 e4 e5 n1 by linarith
  have e6: "\<bar>d - w\<bar> \<le> 80 / 2 ^ 53"
    unfolding d_def w_def[symmetric] using w by (intro fl_error_bound) simp
  with w n1 have d: "3 \<le> d"
    by linarith
  have "\<bar>h * d - h * w\<bar> = h * \<bar>d - w\<bar>"
    using h by (simp add: abs_mult flip: right_diff_distrib)
  also have "\<dots> \<le> 64 * (80 / 2 ^ 53)"
    using h e6 by (intro mult_mono) simp_all
  finally have hd: "\<bar>h * d - h * w\<bar> \<le> 64 * (80 / 2 ^ 53)" .
  have dist: "(h - 3 / 8) * d = h * d - 3 / 8 * d" "(h + 3 / 8) * d = h * d + 3 / 8 * d"
    by (simp_all add: algebra_simps)
  have "(h - 3 / 8) * d \<le> b2" "b2 \<le> (h + 3 / 8) * d"
    unfolding dist using num hd d n1 by linarith+
  with d have q: "h - 3 / 8 \<le> q" "q \<le> h + 3 / 8"
    by (simp_all add: q_def pos_le_divide_eq pos_divide_le_eq)
  with h have "\<bar>q\<bar> \<le> 65"
    by linarith
  from fl_error_bound[OF this] q n1 have "of_int k \<le> fl q" "fl q < of_int k + 1"
    unfolding h_def by linarith+
  then have "\<lfloor>fl q\<rfloor> = k"
    by linarith
  then show ?thesis
    by (simp add: js_div_def js_sub_def js_add_def js_mul_def CELL_SIZE_def
        q_def b2_def b1_def X_def a2_def a1_def d_def)
qed

text \<open>
  C2, as stated, fails for a large pan offset. At zoom 1 and a view panned by
  \<open>10\<^sup>1\<^sup>7\<close>, the centre of the cell in row 3 and column 5 is \<open>88 + 10\<^sup>1\<^sup>7\<close>, which as a
  double is \<open>10\<^sup>1\<^sup>7 + 96\<close>, and \<open>getCanvasCoordinates\<close> returns column 6.
\<close>

theorem getCanvasCoordinates_far_pan_counterexample:
  "getCanvasCoordinates farPanState
     (js_add 0 (js_add (js_mul (5 * CELL_SIZE + 8) (zoom farPanState)) (fst (panOffset farPanState))))
     (js_add 0 (js_add (js_mul (3 * CELL_SIZE + 8) (zoom farPanState)) (snd (panOffset farPanState))))
   = Some (6, 3)"
  by (simp add: getCanvasCoordinates_def farPanState_def initialState_def CELL_SIZE_def
      js_add_def js_sub_def js_mul_def js_div_def fl_examples)

text \<open>
  C2, amended. With a zoom factor between 0.25 and 5, and a pan offset and a canvas
  position of magnitude at most \<open>2\<^sup>4\<^sup>9\<close> in each coordinate, the centre of the cell in row
  \<open>row\<close> and column \<open>col\<close> of the canvas, computed in doubles as
  \<open>((col * 16 + 8) * zoom + panX, (row * 16 + 8) * zoom + panY)\<close> from the canvas's top left
  corner, is mapped back to that column and row by \<open>getCanvasCoordinates\<close>.
\<close>

theorem getCanvasCoordinates_cell_center_bounded:
  assumes "canvasRef s = Some (rect_left, rect_top)" "0.25 \<le> zoom s" "zoom s \<le> 5"
    "0 \<le> row" "row < CANVAS_HEIGHT" "0 \<le> col" "col < CANVAS_WIDTH"
    "\<bar>fst (panOffset s)\<bar> \<le> 2 ^ 49" "\<bar>snd (panOffset s)\<bar> \<le> 2 ^ 49"
    "\<bar>rect_left\<bar> \<le> 2 ^ 49" "\<bar>rect_top\<bar> \<le> 2 ^ 49"
  shows "getCanvasCoordinates s
           (js_add rect_left (js_add (js_mul (of_int col * CELL_SIZE + 8) (zoom s)) (fst (panOffset s))))
           (js_add rect_top (js_add (js_mul (of_int row * CELL_SIZE + 8) (zoom s)) (snd (panOffset s))))
         = Some (col, row)"
proof -
  from assms(2,3) have z: "1 / 4 \<le> zoom s" "zoom s \<le> 5"
    by simp_all
  from assms(4-7) have rc: "0 \<le> col" "col < 64" "0 \<le> row" "row < 64"
    by (simp_all add: CANVAS_HEIGHT_def CANVAS_WIDTH_def)
  from cell_center_roundtrip[OF rc(1,2) z assms(8,10)]
    cell_center_roundtrip[OF rc(3,4) z assms(9,11)] assms(1)
  show ?thesis
    by (simp add: getCanvasCoordinates_def Let_def)
qed

theorem getCanvasCoordinates_cell_center_bounded_witness:
  "canvasRef mountedState = Some (10, 20) \<and> 0.25 \<le> zoom mountedState \<and> zoom mountedState \<le> 5 \<and>
   (0::int) \<le> 47 \<and> 47 < CANVAS_HEIGHT \<and> (0::int) \<le> 6 \<and> 6 < CANVAS_WIDTH \<and>
   \<bar>fst (panOffset mountedState)\<bar> \<le> 2 ^ 49 \<and> \<bar>snd (panOffset mountedState)\<bar> \<le> 2 ^ 49 \<and>
   \<bar>10 :: real\<bar> \<le> 2 ^ 49 \<and> \<bar>20 :: real\<bar> \<le> 2 ^ 49 \<and>
   getCanvasCoordinates mountedState
     (js_add 10 (js_add (js_mul (6 * CELL_SIZE + 8) (zoom mountedState)) (fst (panOffset mountedState))))
     (js_add 20 (js_add (js_mul (47 * CELL_SIZE + 8) (zoom mountedState)) (snd (panOffset mountedState))))
   = Some (6, 47)"
proof -
  have c: "canvasRef mountedState = Some (10, 20)"
    and z: "0.25 \<le> zoom mountedState" "zoom mountedState \<le> 5"
    and p: "\<bar>fst (panOffset mountedState)\<bar> \<le> 2 ^ 49" "\<bar>snd (panOffset mountedState)\<bar> \<le> 2 ^ 49"
    by (simp_all add: mountedState_def)
  have r: "(0::int) \<le> 47" "47 < CANVAS_HEIGHT" "(0::int) \<le> 6" "6 < CANVAS_WIDTH"
    by (simp_all add: CANVAS_HEIGHT_def CANVAS_WIDTH_def)
  have l: "\<bar>10 :: real\<bar> \<le> 2 ^ 49" "\<bar>20 :: real\<bar> \<le> 2 ^ 49"
    by simp_all
  from getCanvasCoordinates_cell_center_bounded[OF c z r p l] c z r p l show ?thesis
    by simp
qed

section \<open>The fill loop\<close>

lemma finite_targets: "finite (targets g t)"
proof -
  have "targets g t \<subseteq> (\<Union>j\<in>{..<length g}. (\<lambda>i. (int i, int j)) ` {..<length (g ! j)})"
  proof
    fix p assume "p \<in> targets g t"
    then obtain x y where p: "p = (x, y)" and r: "getBlockId g x y = Inr t"
      by (auto simp: targets_def)
    define i j where "i = nat x" and "j = nat y"
    with r have "j < length g" "i < length (g ! j)" and xy: "(x, y) = (int i, int j)"
      by (auto simp: getBlockId_Inr_iff)
    then have "j \<in> {..<length g}" "i \<in> {..<length (g ! j)}"
      by simp_all
    with p xy show "p \<in> (\<Union>j\<in>{..<length g}. (\<lambda>i. (int i, int j)) ` {..<length (g ! j)})"
      by blast
  qed
  then show ?thesis
    by (rule finite_subset) simp
qed

lemma targets_fillCell:
  assumes "getBlockId g x y = Inr t" "t \<noteq> r"
  shows "targets (fillCell g x y r) t = targets g t - {(x, y)}"
  using assms by (auto simp: targets_def getBlockId_update[OF assms(1)])

lemma card_targets_fillCell:
  assumes "getBlockId g x y = Inr t" "t \<noteq> r"
  shows "card (targets (fillCell g x y r) t) < card (targets g t)"
proof -
  from assms(1) have "(x, y) \<in> targets g t"
    by (simp add: targets_def)
  then have "card (targets g t - {(x, y)}) < card (targets g t)"
    by (rule card_Diff1_less[OF finite_targets])
  then show ?thesis
    by (simp only: targets_fillCell[OF assms])
qed

lemma fillLoop_skip:
  assumes "\<not> inCanvas x y \<or> (\<exists>b. getBlockId g x y = Inr b \<and> b \<noteq> t)"
  shows "fillLoop t r g ((x, y) # st) = fillLoop t r g st"
  using assms by (subst fillLoop_Cons) (auto simp: inCanvas_def)

lemma fillLoop_error:
  assumes "inCanvas x y" "getBlockId g x y = Inl e"
  shows "fillLoop t r g ((x, y) # st) = Some (Inl e)"
  using assms by (subst fillLoop_Cons) (auto simp: inCanvas_def)

lemma fillLoop_fill:
  assumes "inCanvas x y" "getBlockId g x y = Inr t"
  shows "fillLoop t r g ((x, y) # st) = fillLoop t r (fillCell g x y r) (pushNeighbours x y st)"
  using assms
  by (subst fillLoop_Cons) (auto simp: inCanvas_def setCell_readable[OF assms(2)] pushNeighbours_def)

lemma fillLoop_induct [consumes 1, case_names Nil Skip Error Fill]:
  assumes ne: "t \<noteq> r"
    and nil: "\<And>g. P g []"
    and skip: "\<And>g x y st. \<not> inCanvas x y \<or> (\<exists>b. getBlockId g x y = Inr b \<and> b \<noteq> t) \<Longrightarrow>
                 P g st \<Longrightarrow> P g ((x, y) # st)"
    and err: "\<And>g x y st e. inCanvas x y \<Longrightarrow> getBlockId g x y = Inl e \<Longrightarrow> P g ((x, y) # st)"
    and fill: "\<And>g x y st. inCanvas x y \<Longrightarrow> getBlockId g x y = Inr t \<Longrightarrow>
                 P (fillCell g x y r) (pushNeighbours x y st) \<Longrightarrow> P g ((x, y) # st)"
  shows "P g st"
proof (induction "4 * card (targets g t) + length st" arbitrary: g st rule: less_induct)
  case less
  show ?case
  proof (cases st)
    case Nil
    then show ?thesis by (simp add: nil)
  next
    case (Cons p rest)
    obtain x y where p: "p = (x, y)" by (cases p)
    consider (out) "\<not> inCanvas x y \<or> (\<exists>b. getBlockId g x y = Inr b \<and> b \<noteq> t)"
      | (bad) e where "inCanvas x y" "getBlockId g x y = Inl e"
      | (hit) "inCanvas x y" "getBlockId g x y = Inr t"
      by (cases "getBlockId g x y") auto
    then show ?thesis
    proof cases
      case out
      have "P g rest"
        by (rule less) (simp add: Cons)
      with out show ?thesis
        unfolding Cons p by (rule skip)
    next
      case bad
      then show ?thesis
        unfolding Cons p by (rule err)
    next
      case hit
      have "P (fillCell g x y r) (pushNeighbours x y rest)"
      proof (rule less)
        from card_targets_fillCell[OF hit(2) ne]
        show "4 * card (targets (fillCell g x y r) t) + length (pushNeighbours x y rest)
              < 4 * card (targets g t) + length st"
          by (simp add: Cons pushNeighbours_def)
      qed
      with hit show ?thesis
        unfolding Cons p by (rule fill)
    qed
  qed
qed

lemma fillLoop_terminates:
  assumes "t \<noteq> r"
  shows "\<exists>res. fillLoop t r g st = Some res"
  using assms
proof (induction g st rule: fillLoop_induct)
  case (Nil g)
  show ?case by (simp add: fillLoop_Nil)
next
  case (Skip g x y st)
  then show ?case by (simp add: fillLoop_skip)
next
  case (Error g x y st e)
  then show ?case by (simp add: fillLoop_error)
next
  case (Fill g x y st)
  then show ?case by (simp add: fillLoop_fill)
qed


lemma connected_holds:
  assumes "connected g t start p"
  shows "inCanvas (fst p) (snd p) \<and> getBlockId g (fst p) (snd p) = Inr t"
  using assms by (induction rule: connected.induct) simp_all

lemma fillInv_init:
  assumes "wf_grid g0" "inCanvas x y" "getBlockId g0 x y = Inr t" "t \<noteq> r"
  shows "fillInv g0 t r (x, y) g0 [(x, y)]"
proof -
  have c: "connected g0 t (x, y) (x, y)"
    using assms by (simp add: connected.start)
  have "getBlockId g0 x' y' \<noteq> Inr r" if "connected g0 t (x, y) (x', y')" for x' y'
    using connected_holds[OF that] assms(4) by simp
  with assms(1) c show ?thesis
    unfolding fillInv_def by simp
qed

lemma fillInv_skip:
  assumes inv: "fillInv g0 t r start g ((x, y) # st)"
    and skip: "\<not> inCanvas x y \<or> (\<exists>b. getBlockId g x y = Inr b \<and> b \<noteq> t)"
  shows "fillInv g0 t r start g st"
proof -
  from inv have wf: "wf_grid g" and c0: "connected g0 t start start"
    and F: "\<And>x y. getBlockId g x y = getBlockId g0 x y \<or>
              (getBlockId g x y = Inr r \<and> connected g0 t start (x, y))"
    and S: "\<And>x' y'. (x', y') \<in> set ((x, y) # st) \<Longrightarrow> inCanvas x' y' \<Longrightarrow>
              getBlockId g0 x' y' = Inr t \<Longrightarrow> connected g0 t start (x', y')"
    and C: "\<And>a b x' y'. connected g0 t start (a, b) \<Longrightarrow> getBlockId g a b = Inr r \<Longrightarrow>
              (x', y') \<in> {(a + 1, b), (a - 1, b), (a, b + 1), (a, b - 1)} \<Longrightarrow>
              inCanvas x' y' \<Longrightarrow> getBlockId g0 x' y' = Inr t \<Longrightarrow>
              getBlockId g x' y' = Inr r \<or> (x', y') \<in> set ((x, y) # st)"
    and B: "getBlockId g (fst start) (snd start) = Inr r \<or> start \<in> set ((x, y) # st)"
    unfolding fillInv_def by blast+
  have K: "getBlockId g x y = Inr r" if "inCanvas x y" "getBlockId g0 x y = Inr t"
    using F[of x y] skip that by auto
  have S': "\<And>x' y'. (x', y') \<in> set st \<Longrightarrow> inCanvas x' y' \<Longrightarrow>
              getBlockId g0 x' y' = Inr t \<Longrightarrow> connected g0 t start (x', y')"
    using S by simp
  have C': "getBlockId g x' y' = Inr r \<or> (x', y') \<in> set st"
    if "connected g0 t start (a, b)" "getBlockId g a b = Inr r"
       "(x', y') \<in> {(a + 1, b), (a - 1, b), (a, b + 1), (a, b - 1)}"
       "inCanvas x' y'" "getBlockId g0 x' y' = Inr t" for a b x' y'
  proof (cases "(x', y') = (x, y)")
    case True
    with K that(4,5) show ?thesis by simp
  next
    case False
    with C[OF that] show ?thesis by auto
  qed
  have B': "getBlockId g (fst start) (snd start) = Inr r \<or> start \<in> set st"
  proof (cases "start = (x, y)")
    case True
    with K connected_holds[OF c0] show ?thesis by simp
  next
    case False
    with B show ?thesis by simp
  qed
  from wf c0 F S' C' B' show ?thesis
    unfolding fillInv_def by blast
qed

lemma fillInv_fill:
  assumes inv: "fillInv g0 t r start g ((x, y) # st)"
    and ne: "t \<noteq> r"
    and hit: "inCanvas x y" "getBlockId g x y = Inr t"
  shows "fillInv g0 t r start (fillCell g x y r) (pushNeighbours x y st)"
proof -
  let ?g = "fillCell g x y r"
  let ?st = "pushNeighbours x y st"
  from inv have wf: "wf_grid g" and c0: "connected g0 t start start"
    and F: "\<And>x y. getBlockId g x y = getBlockId g0 x y \<or>
              (getBlockId g x y = Inr r \<and> connected g0 t start (x, y))"
    and S: "\<And>x' y'. (x', y') \<in> set ((x, y) # st) \<Longrightarrow> inCanvas x' y' \<Longrightarrow>
              getBlockId g0 x' y' = Inr t \<Longrightarrow> connected g0 t start (x', y')"
    and C: "\<And>a b x' y'. connected g0 t start (a, b) \<Longrightarrow> getBlockId g a b = Inr r \<Longrightarrow>
              (x', y') \<in> {(a + 1, b), (a - 1, b), (a, b + 1), (a, b - 1)} \<Longrightarrow>
              inCanvas x' y' \<Longrightarrow> getBlockId g0 x' y' = Inr t \<Longrightarrow>
              getBlockId g x' y' = Inr r \<or> (x', y') \<in> set ((x, y) # st)"
    and B: "getBlockId g (fst start) (snd start) = Inr r \<or> start \<in> set ((x, y) # st)"
    unfolding fillInv_def by blast+
  have upd: "getBlockId ?g x' y' = (if x' = x \<and> y' = y then Inr r else getBlockId g x' y')" for x' y'
    using getBlockId_update[OF hit(2), of "\<lparr>blockId = r\<rparr>" x' y'] by simp
  have wf': "wf_grid ?g"
    using wf hit(2) by (rule wf_grid_update)
  from F[of x y] hit(2) ne have t0: "getBlockId g0 x y = Inr t"
    by auto
  have cxy: "connected g0 t start (x, y)"
    using S[of x y] hit(1) t0 by simp
  have F': "getBlockId ?g x' y' = getBlockId g0 x' y' \<or>
            (getBlockId ?g x' y' = Inr r \<and> connected g0 t start (x', y'))" for x' y'
    using F[of x' y'] cxy by (auto simp: upd)
  have S': "connected g0 t start (x', y')"
    if "(x', y') \<in> set ?st" "inCanvas x' y'" "getBlockId g0 x' y' = Inr t" for x' y'
  proof (cases "(x', y') \<in> set st")
    case True
    with S that show ?thesis by simp
  next
    case False
    with that(1) have "(x', y') \<in> {(x + 1, y), (x - 1, y), (x, y + 1), (x, y - 1)}"
      by (auto simp: pushNeighbours_def)
    with cxy show ?thesis
      using that(2,3) by (rule connected.step)
  qed
  have C': "getBlockId ?g x' y' = Inr r \<or> (x', y') \<in> set ?st"
    if "connected g0 t start (a, b)" "getBlockId ?g a b = Inr r"
       "(x', y') \<in> {(a + 1, b), (a - 1, b), (a, b + 1), (a, b - 1)}"
       "inCanvas x' y'" "getBlockId g0 x' y' = Inr t" for a b x' y'
  proof (cases "(a, b) = (x, y)")
    case True
    with that(3) show ?thesis
      by (auto simp: pushNeighbours_def)
  next
    case False
    with that(2) have "getBlockId g a b = Inr r"
      by (auto simp: upd split: if_splits)
    from C[OF that(1) this that(3-5)] show ?thesis
      by (auto simp: upd pushNeighbours_def)
  qed
  have B': "getBlockId ?g (fst start) (snd start) = Inr r \<or> start \<in> set ?st"
    using B by (cases start) (auto simp: upd pushNeighbours_def)
  from wf' c0 F' S' C' B' show ?thesis
    unfolding fillInv_def by blast
qed

lemma fillLoop_total:
  assumes "t \<noteq> r" "fillInv g0 t r start g st"
  shows "\<exists>g'. fillLoop t r g st = Some (Inr g') \<and> fillInv g0 t r start g' []"
  using assms
proof (induction g st rule: fillLoop_induct)
  case (Nil g)
  then show ?case by (simp add: fillLoop_Nil)
next
  case (Skip g x y st)
  from Skip.prems Skip.hyps(1) have "fillInv g0 t r start g st"
    by (rule fillInv_skip)
  with Skip show ?case by (simp add: fillLoop_skip)
next
  case (Error g x y st e)
  from Error.prems have "wf_grid g"
    by (simp add: fillInv_def)
  with Error.hyps show ?case
    using wf_grid_readable[of g x y] by simp
next
  case (Fill g x y st)
  from Fill.prems \<open>t \<noteq> r\<close> Fill.hyps(1,2)
  have "fillInv g0 t r start (fillCell g x y r) (pushNeighbours x y st)"
    by (rule fillInv_fill)
  with Fill show ?case by (simp add: fillLoop_fill)
qed

lemma fillInv_final:
  assumes "fillInv g0 t r start g []"
  shows "getBlockId g x y = (if connected g0 t start (x, y) then Inr r else getBlockId g0 x y)"
proof -
  from assms have c0: "connected g0 t start start"
    and F: "\<And>x y. getBlockId g x y = getBlockId g0 x y \<or>
              (getBlockId g x y = Inr r \<and> connected g0 t start (x, y))"
    and C: "\<And>a b x' y'. connected g0 t start (a, b) \<Longrightarrow> getBlockId g a b = Inr r \<Longrightarrow>
              (x', y') \<in> {(a + 1, b), (a - 1, b), (a, b + 1), (a, b - 1)} \<Longrightarrow>
              inCanvas x' y' \<Longrightarrow> getBlockId g0 x' y' = Inr t \<Longrightarrow>
              getBlockId g x' y' = Inr r"
    and B: "getBlockId g (fst start) (snd start) = Inr r"
    unfolding fillInv_def by auto
  have "getBlockId g (fst p) (snd p) = Inr r" if "connected g0 t start p" for p
    using that
  proof (induction rule: connected.induct)
    case start
    show ?case by (rule B)
  next
    case (step x y x' y')
    from C[OF step.hyps(1) _ step.hyps(2,3,4)] step.IH show ?case by simp
  qed
  from this[of "(x, y)"] F[of x y] show ?thesis by auto
qed


section \<open>The result of a fill\<close>

lemma floodFill_early_return:
  assumes "getBlockId (grid s) sx sy = Inr (replacementBlockId s)"
  shows "floodFill s sx sy = Some (Inr s)"
  using assms by (simp add: floodFill_def replacementBlockId_def)

lemma floodFill_fills_region:
  assumes wf: "wf_grid (grid s)" and c: "inCanvas sx sy"
    and t: "getBlockId (grid s) sx sy = Inr t" and ne: "t \<noteq> replacementBlockId s"
  shows "\<exists>g'. floodFill s sx sy = Some (Inr (s\<lparr>grid := g'\<rparr>)) \<and> wf_grid g' \<and>
          (\<forall>x y. getBlockId g' x y =
             (if connected (grid s) t (sx, sy) (x, y) then Inr (replacementBlockId s)
              else getBlockId (grid s) x y))"
proof -
  let ?r = "replacementBlockId s"
  have "fillInv (grid s) t ?r (sx, sy) (grid s) [(sx, sy)]"
    using wf c t ne by (rule fillInv_init)
  from fillLoop_total[OF ne this] obtain g'
    where loop: "fillLoop t ?r (grid s) [(sx, sy)] = Some (Inr g')"
      and inv: "fillInv (grid s) t ?r (sx, sy) g' []"
    by blast
  from loop t ne have "floodFill s sx sy = Some (Inr (s\<lparr>grid := g'\<rparr>))"
    by (simp add: floodFill_def replacementBlockId_def copyGrid_id)
  moreover from inv have "wf_grid g'"
    by (simp add: fillInv_def)
  moreover have "getBlockId g' x y =
      (if connected (grid s) t (sx, sy) (x, y) then Inr ?r else getBlockId (grid s) x y)" for x y
    using inv by (rule fillInv_final)
  ultimately show ?thesis by blast
qed


lemma floodFill_total:
  assumes wf: "wf_grid (grid s)" and c: "inCanvas sx sy"
  shows "\<exists>t g'. getBlockId (grid s) sx sy = Inr t \<and>
           floodFill s sx sy = Some (Inr (s\<lparr>grid := g'\<rparr>)) \<and> wf_grid g' \<and>
           (\<forall>x y. getBlockId g' x y =
              (if t \<noteq> replacementBlockId s \<and> connected (grid s) t (sx, sy) (x, y)
               then Inr (replacementBlockId s) else getBlockId (grid s) x y))"
proof -
  from assms obtain t where t: "getBlockId (grid s) sx sy = Inr t"
    using wf_grid_readable by blast
  show ?thesis
  proof (cases "t = replacementBlockId s")
    case True
    with t have "floodFill s sx sy = Some (Inr (s\<lparr>grid := grid s\<rparr>))"
      by (simp add: floodFill_early_return)
    with t wf True show ?thesis
      by (intro exI[of _ t] exI[of _ "grid s"]) simp
  next
    case False
    from floodFill_fills_region[OF wf c t False] t False show ?thesis
      by auto
  qed
qed

lemma floodFill_start_filled:
  assumes "inCanvas sx sy" "getBlockId g sx sy = Inr t"
    and "\<And>x y. getBlockId g' x y =
           (if t \<noteq> r \<and> connected g t (sx, sy) (x, y) then Inr r else getBlockId g x y)"
  shows "getBlockId g' sx sy = Inr r"
proof -
  have "connected g t (sx, sy) (sx, sy)"
    using assms(1,2) by (simp add: connected.start)
  with assms(3)[of sx sy] assms(2) show ?thesis
    by (cases "t = r") simp_all
qed

lemma uniform_walk:
  assumes all: "\<And>x y. inCanvas x y \<Longrightarrow> getBlockId g x y = Inr a"
    and src: "connected g a start (x, y)"
    and dir: "(dx, dy) \<in> {(1, 0), (- 1, 0), (0, 1), (0, - 1)}"
    and dst: "inCanvas (x + int n * dx) (y + int n * dy)"
  shows "connected g a start (x + int n * dx, y + int n * dy)"
  using dst
proof (induction n)
  case 0
  with src show ?case by simp
next
  case (Suc n)
  from connected_holds[OF src] have here: "inCanvas x y" by simp
  let ?x = "x + int n * dx" and ?y = "y + int n * dy"
  from here Suc.prems dir have mid: "inCanvas ?x ?y"
    by (auto simp: inCanvas_def algebra_simps)
  from dir have nb: "(x + int (Suc n) * dx, y + int (Suc n) * dy) \<in>
      {(?x + 1, ?y), (?x - 1, ?y), (?x, ?y + 1), (?x, ?y - 1)}"
    by (auto simp: algebra_simps)
  from Suc.IH[OF mid] nb Suc.prems all[OF Suc.prems] show ?case
    by (rule connected.step)
qed

lemma uniform_connected:
  assumes all: "\<And>x y. inCanvas x y \<Longrightarrow> getBlockId g x y = Inr a"
    and start: "inCanvas sx sy" and cell: "inCanvas x y"
  shows "connected g a (sx, sy) (x, y)"
proof -
  have c0: "connected g a (sx, sy) (sx, sy)"
    using start all[OF start] by (simp add: connected.start)
  from start cell have row: "inCanvas x sy"
    by (simp add: inCanvas_def)
  have c1: "connected g a (sx, sy) (x, sy)"
  proof (cases "sx \<le> x")
    case True
    from uniform_walk[OF all c0, of 1 0 "nat (x - sx)"] row True show ?thesis by simp
  next
    case False
    from uniform_walk[OF all c0, of "- 1" 0 "nat (sx - x)"] row False show ?thesis by simp
  qed
  show ?thesis
  proof (cases "sy \<le> y")
    case True
    from uniform_walk[OF all c1, of 0 1 "nat (y - sy)"] cell True show ?thesis by simp
  next
    case False
    from uniform_walk[OF all c1, of 0 "- 1" "nat (sy - y)"] cell False show ?thesis by simp
  qed
qed

lemma wf_uniform_grid:
  assumes wf: "wf_grid g" and all: "\<And>x y. inCanvas x y \<Longrightarrow> getBlockId g x y = Inr b"
  shows "g = replicate 48 (replicate 64 (Some \<lparr>blockId = b\<rparr>))"
proof (rule nth_equalityI)
  from wf show len: "length g = length (replicate 48 (replicate 64 (Some \<lparr>blockId = b\<rparr>)))"
    by (simp add: wf_grid_def CANVAS_HEIGHT_def)
  fix j assume "j < length g"
  with wf have j: "j < 48" and lj: "length (g ! j) = 64"
    by (auto simp: wf_grid_def CANVAS_HEIGHT_def CANVAS_WIDTH_def list_all_length)
  have "g ! j = replicate 64 (Some \<lparr>blockId = b\<rparr>)"
  proof (rule nth_equalityI)
    from lj show "length (g ! j) = length (replicate 64 (Some \<lparr>blockId = b\<rparr>))"
      by simp
    fix i assume "i < length (g ! j)"
    with lj have i: "i < 64" by simp
    with j have "inCanvas (int i) (int j)"
      by (simp add: inCanvas_def CANVAS_HEIGHT_def CANVAS_WIDTH_def)
    from all[OF this] obtain c where "g ! j ! i = Some c" "blockId c = b"
      by (auto simp: getBlockId_Inr_iff)
    with i show "g ! j ! i = replicate 64 (Some \<lparr>blockId = b\<rparr>) ! i"
      by simp
  qed
  with j show "g ! j = replicate 48 (replicate 64 (Some \<lparr>blockId = b\<rparr>)) ! j"
    by simp
qed


lemma wf_fillState: "wf_grid (grid fillState)"
  by (simp add: fillState_def initialState_def wf_emptyGrid)

lemma replacement_fillState: "replacementBlockId fillState = ''water''"
  by (simp add: fillState_def initialState_def replacementBlockId_def)

lemma getBlockId_twoBlocksGrid:
  assumes "inCanvas x y"
  shows "getBlockId twoBlocksGrid x y =
           Inr (if 1 \<le> y \<and> y \<le> 3 \<and> (1 \<le> x \<and> x \<le> 3 \<or> 5 \<le> x \<and> x \<le> 7)
                then ''stone'' else ''air'')"
proof -
  from assms have b: "nat y < 48" "nat x < 64" "0 \<le> x" "0 \<le> y" "x < 64" "y < 48"
    by (auto simp: inCanvas_def CANVAS_WIDTH_def CANVAS_HEIGHT_def)
  then have "twoBlocksGrid ! nat y ! nat x = Some \<lparr>blockId =
      (if 1 \<le> nat y \<and> nat y \<le> 3 \<and> (1 \<le> nat x \<and> nat x \<le> 3 \<or> 5 \<le> nat x \<and> nat x \<le> 7)
       then ''stone'' else ''air'')\<rparr>"
    by (simp add: twoBlocksGrid_def)
  moreover from b have "length twoBlocksGrid = 48" "length (twoBlocksGrid ! nat y) = 64"
    by (simp_all add: twoBlocksGrid_def)
  ultimately show ?thesis
    using b by (auto simp: getBlockId_Inr_iff)
qed

lemma wf_twoBlocksGrid: "wf_grid twoBlocksGrid"
  by (simp add: wf_grid_def twoBlocksGrid_def CANVAS_HEIGHT_def CANVAS_WIDTH_def list_all_length)

lemma twoBlocks_first_block:
  assumes "connected twoBlocksGrid ''stone'' (2, 2) p"
  shows "1 \<le> fst p \<and> fst p \<le> 3 \<and> 1 \<le> snd p \<and> snd p \<le> 3"
  using assms
proof (induction rule: connected.induct)
  case start
  show ?case by simp
next
  case (step x y x' y')
  from step.hyps(3,4) have "1 \<le> y' \<and> y' \<le> 3 \<and> (1 \<le> x' \<and> x' \<le> 3 \<or> 5 \<le> x' \<and> x' \<le> 7)"
    by (simp add: getBlockId_twoBlocksGrid split: if_splits)
  with step.hyps(2) step.IH show ?case by auto
qed

section \<open>Flood fill\<close>

text \<open>
  C6. When the start cell already holds the replacement identifier (\<open>''air''\<close> for the
  eraser, the selected block's identifier otherwise), \<open>floodFill\<close> returns at once: the
  state, and with it every cell of the grid, is as before.
\<close>

theorem floodFill_same_block_noop:
  assumes "getBlockId (grid s) startX startY = Inr (replacementBlockId s)"
  shows "floodFill s startX startY = Some (Inr s)"
  using assms by (simp add: floodFill_def replacementBlockId_def)

theorem floodFill_same_block_noop_witness:
  "getBlockId (grid (initialState ''air'')) 3 4 = Inr (replacementBlockId (initialState ''air'')) \<and>
   floodFill (initialState ''air'') 3 4 = Some (Inr (initialState ''air''))"
proof -
  have "inCanvas 3 4"
    by (simp add: inCanvas_def CANVAS_WIDTH_def CANVAS_HEIGHT_def)
  then have r: "getBlockId (grid (initialState ''air'')) 3 4 =
      Inr (replacementBlockId (initialState ''air''))"
    by (simp add: initialState_def replacementBlockId_def getBlockId_emptyGrid)
  from floodFill_same_block_noop[OF r] r show ?thesis
    by simp
qed

text \<open>
  C7. \<open>floodFill\<close> returns for every state and start cell; its loop returns for every
  grid and stack whenever target and replacement differ, since each write takes one cell
  out of the finite set of cells holding the target; and on a grid of the canvas's
  dimensions with a start cell of the canvas it returns a state, not an error.
\<close>

theorem floodFill_terminates:
  "(\<exists>res. floodFill s sx sy = Some res) \<and>
   (t \<noteq> r \<longrightarrow> (\<exists>res. fillLoop t r g st = Some res)) \<and>
   (wf_grid (grid s) \<longrightarrow> inCanvas sx sy \<longrightarrow> (\<exists>s'. floodFill s sx sy = Some (Inr s')))"
proof (intro conjI impI)
  show "\<exists>res. floodFill s sx sy = Some res"
  proof (cases "getBlockId (grid s) sx sy")
    case (Inl e)
    then show ?thesis by (simp add: floodFill_def)
  next
    case (Inr b)
    show ?thesis
    proof (cases "b = replacementBlockId s")
      case True
      with Inr show ?thesis by (simp add: floodFill_early_return)
    next
      case False
      from fillLoop_terminates[OF False] obtain res
        where "fillLoop b (replacementBlockId s) (grid s) [(sx, sy)] = Some res"
        by blast
      with Inr False show ?thesis
        by (cases res) (simp_all add: floodFill_def replacementBlockId_def copyGrid_id)
    qed
  qed
next
  assume "t \<noteq> r"
  then show "\<exists>res. fillLoop t r g st = Some res"
    by (rule fillLoop_terminates)
next
  assume "wf_grid (grid s)" "inCanvas sx sy"
  from floodFill_total[OF this] show "\<exists>s'. floodFill s sx sy = Some (Inr s')"
    by blast
qed

theorem floodFill_terminates_witness:
  "(\<exists>res. floodFill twoBlocksState 2 2 = Some res) \<and>
   ''stone'' \<noteq> ''water'' \<and>
   (\<exists>res. fillLoop ''stone'' ''water'' twoBlocksGrid [(2, 2)] = Some res) \<and>
   wf_grid (grid twoBlocksState) \<and> inCanvas 2 2 \<and>
   (\<exists>s'. floodFill twoBlocksState 2 2 = Some (Inr s'))"
proof -
  have wf: "wf_grid (grid twoBlocksState)"
    by (simp add: twoBlocksState_def wf_twoBlocksGrid)
  have c: "inCanvas 2 2"
    by (simp add: inCanvas_def CANVAS_WIDTH_def CANVAS_HEIGHT_def)
  have ne: "''stone'' \<noteq> ''water''"
    by simp
  from floodFill_terminates[of twoBlocksState 2 2 "''stone''" "''water''" twoBlocksGrid "[(2, 2)]"]
    wf c ne show ?thesis
    by blast
qed

text \<open>
  C10. On a grid of the canvas's dimensions and from a start cell of the canvas,
  \<open>floodFill\<close> returns a state in which every cell reads as before or holds the
  replacement identifier.
\<close>

theorem floodFill_writes_only_replacement:
  assumes "wf_grid (grid s)" "inCanvas sx sy"
  shows "\<exists>s'. floodFill s sx sy = Some (Inr s') \<and>
           (\<forall>x y. getBlockId (grid s') x y = getBlockId (grid s) x y \<or>
                  getBlockId (grid s') x y = Inr (replacementBlockId s))"
  using floodFill_total[OF assms] by force

theorem floodFill_writes_only_replacement_witness:
  "wf_grid (grid twoBlocksState) \<and> inCanvas 1 1 \<and>
   (\<exists>s'. floodFill twoBlocksState 1 1 = Some (Inr s') \<and>
      (getBlockId (grid s') 3 3 = Inr ''stone'' \<or> getBlockId (grid s') 3 3 = Inr ''water''))"
proof -
  have wf: "wf_grid (grid twoBlocksState)"
    by (simp add: twoBlocksState_def wf_twoBlocksGrid)
  have c: "inCanvas 1 1" "inCanvas 3 3"
    by (simp_all add: inCanvas_def CANVAS_WIDTH_def CANVAS_HEIGHT_def)
  have a: "getBlockId (grid twoBlocksState) 3 3 = Inr ''stone''"
    using c by (simp add: twoBlocksState_def getBlockId_twoBlocksGrid)
  have r: "replacementBlockId twoBlocksState = ''water''"
    by (simp add: twoBlocksState_def fillState_def initialState_def replacementBlockId_def)
  from floodFill_writes_only_replacement[OF wf c(1)] obtain s'
    where f: "floodFill twoBlocksState 1 1 = Some (Inr s')"
      and cells: "\<And>x y. getBlockId (grid s') x y = getBlockId (grid twoBlocksState) x y \<or>
                  getBlockId (grid s') x y = Inr (replacementBlockId twoBlocksState)"
    by blast
  from cells[of 3 3] a r
  have "getBlockId (grid s') 3 3 = Inr ''stone'' \<or> getBlockId (grid s') 3 3 = Inr ''water''"
    by simp
  with f wf c show ?thesis
    by blast
qed


text \<open>
  C3. A cell that no path of horizontal and vertical steps through cells holding the
  start cell's original identifier joins to the start cell reads after \<open>floodFill\<close> as it
  did before. The example is the one of two separate blocks of the same identifier:
  filling the first leaves the second as it was.
\<close>

theorem floodFill_region_isolation:
  assumes "wf_grid (grid s)" "inCanvas sx sy" "getBlockId (grid s) sx sy = Inr t"
  shows "\<exists>s'. floodFill s sx sy = Some (Inr s') \<and>
           (\<forall>x y. \<not> connected (grid s) t (sx, sy) (x, y) \<longrightarrow>
                  getBlockId (grid s') x y = getBlockId (grid s) x y)"
  using floodFill_total[OF assms(1,2)] assms(3) by force

theorem floodFill_region_isolation_witness:
  "wf_grid (grid twoBlocksState) \<and> inCanvas 2 2 \<and>
   getBlockId (grid twoBlocksState) 2 2 = Inr ''stone'' \<and>
   getBlockId (grid twoBlocksState) 6 2 = Inr ''stone'' \<and>
   \<not> connected (grid twoBlocksState) ''stone'' (2, 2) (6, 2) \<and>
   (\<exists>s'. floodFill twoBlocksState 2 2 = Some (Inr s') \<and>
      getBlockId (grid s') 6 2 = Inr ''stone'')"
proof -
  have wf: "wf_grid (grid twoBlocksState)"
    by (simp add: twoBlocksState_def wf_twoBlocksGrid)
  have c: "inCanvas 2 2" "inCanvas 6 2"
    by (simp_all add: inCanvas_def CANVAS_WIDTH_def CANVAS_HEIGHT_def)
  have a: "getBlockId (grid twoBlocksState) 2 2 = Inr ''stone''"
    and b: "getBlockId (grid twoBlocksState) 6 2 = Inr ''stone''"
    using c by (simp_all add: twoBlocksState_def getBlockId_twoBlocksGrid)
  have n: "\<not> connected (grid twoBlocksState) ''stone'' (2, 2) (6, 2)"
    using twoBlocks_first_block[of "(6, 2)"] by (auto simp: twoBlocksState_def)
  from floodFill_region_isolation[OF wf c(1) a] n b wf c a show ?thesis
    by auto
qed

text \<open>
  C4. On a grid whose cells all hold the identifier \<open>a\<close>, \<open>floodFill\<close> from any cell of
  the canvas returns the grid whose 48 rows of 64 cells, 3072 in all, hold the
  replacement identifier; that identifier is any selected block's with the brush or fill
  tool, and \<open>a\<close> itself is allowed.
\<close>

theorem floodFill_uniform_grid:
  assumes wf: "wf_grid (grid s)"
    and all: "\<forall>x y. inCanvas x y \<longrightarrow> getBlockId (grid s) x y = Inr a"
    and start: "inCanvas sx sy"
  shows "\<exists>s'. floodFill s sx sy = Some (Inr s') \<and>
           grid s' = replicate 48 (replicate 64 (Some \<lparr>blockId = replacementBlockId s\<rparr>)) \<and>
           length (concat (grid s')) = 3072 \<and>
           (\<forall>x y. inCanvas x y \<longrightarrow> getBlockId (grid s') x y = Inr (replacementBlockId s))"
proof -
  let ?b = "replacementBlockId s"
  from all have all': "\<And>x y. inCanvas x y \<Longrightarrow> getBlockId (grid s) x y = Inr a"
    by blast
  from floodFill_total[OF wf start] all'[OF start] obtain g'
    where once: "floodFill s sx sy = Some (Inr (s\<lparr>grid := g'\<rparr>))" and wf': "wf_grid g'"
      and cells: "\<And>x y. getBlockId g' x y =
           (if a \<noteq> ?b \<and> connected (grid s) a (sx, sy) (x, y) then Inr ?b
            else getBlockId (grid s) x y)"
    by auto
  have filled: "getBlockId g' x y = Inr ?b" if "inCanvas x y" for x y
    using cells[of x y] uniform_connected[OF all' start that] all'[OF that]
    by (cases "a = ?b") simp_all
  with wf' have eq: "g' = replicate 48 (replicate 64 (Some \<lparr>blockId = ?b\<rparr>))"
    by (rule wf_uniform_grid)
  have "length (concat (replicate 48 (replicate 64 (Some \<lparr>blockId = ?b\<rparr>)))) = 3072"
    by (simp add: length_concat sum_list_replicate)
  with once eq filled show ?thesis by auto
qed

theorem floodFill_uniform_grid_witness:
  "wf_grid (grid fillState) \<and> inCanvas 0 0 \<and>
   getBlockId (grid fillState) 63 47 = Inr ''air'' \<and>
   (\<exists>s'. floodFill fillState 0 0 = Some (Inr s') \<and>
      grid s' = replicate 48 (replicate 64 (Some \<lparr>blockId = ''water''\<rparr>)) \<and>
      length (concat (grid s')) = 3072 \<and>
      getBlockId (grid s') 63 47 = Inr ''water'')"
proof -
  have c: "inCanvas 0 0" "inCanvas 63 47"
    by (simp_all add: inCanvas_def CANVAS_WIDTH_def CANVAS_HEIGHT_def)
  have all: "\<forall>x y. inCanvas x y \<longrightarrow> getBlockId (grid fillState) x y = Inr ''air''"
    by (simp add: fillState_def initialState_def getBlockId_emptyGrid)
  from floodFill_uniform_grid[OF wf_fillState all c(1)] all c wf_fillState show ?thesis
    by (auto simp: replacement_fillState)
qed

text \<open>
  C5. Running \<open>floodFill\<close> from the same cell on the state it returned gives that state
  again.
\<close>

theorem floodFill_idempotent:
  assumes "wf_grid (grid s)" "inCanvas sx sy"
  shows "\<exists>s'. floodFill s sx sy = Some (Inr s') \<and> floodFill s' sx sy = Some (Inr s')"
proof -
  from floodFill_total[OF assms] obtain t g'
    where t: "getBlockId (grid s) sx sy = Inr t"
      and once: "floodFill s sx sy = Some (Inr (s\<lparr>grid := g'\<rparr>))"
      and cells: "\<And>x y. getBlockId g' x y =
           (if t \<noteq> replacementBlockId s \<and> connected (grid s) t (sx, sy) (x, y)
            then Inr (replacementBlockId s) else getBlockId (grid s) x y)"
    by blast
  from assms(2) t cells have "getBlockId g' sx sy = Inr (replacementBlockId s)"
    by (rule floodFill_start_filled)
  then have "getBlockId (grid (s\<lparr>grid := g'\<rparr>)) sx sy = Inr (replacementBlockId (s\<lparr>grid := g'\<rparr>))"
    by (simp add: replacementBlockId_def)
  then have "floodFill (s\<lparr>grid := g'\<rparr>) sx sy = Some (Inr (s\<lparr>grid := g'\<rparr>))"
    by (rule floodFill_early_return)
  with once show ?thesis by blast
qed

theorem floodFill_idempotent_witness:
  "wf_grid (grid twoBlocksState) \<and> inCanvas 6 3 \<and>
   (\<exists>s'. floodFill twoBlocksState 6 3 = Some (Inr s') \<and> floodFill s' 6 3 = Some (Inr s'))"
proof -
  have wf: "wf_grid (grid twoBlocksState)"
    by (simp add: twoBlocksState_def wf_twoBlocksGrid)
  have c: "inCanvas 6 3"
    by (simp add: inCanvas_def CANVAS_WIDTH_def CANVAS_HEIGHT_def)
  from floodFill_idempotent[OF wf c] wf c show ?thesis
    by blast
qed


end
